theory Spec2Isabelle
  imports Main "HOL-Library.AList"
begin

section \<open>Data model of spriteutil.py\<close>

text \<open>
  Python exceptions are values. \<open>KeyError\<close> carries the missing key,
  \<open>AttributeError\<close> the name of the missing attribute, the other two their message.
\<close>

datatype error = KeyError int | AttributeError string | TypeError string | ValueError string

text \<open>
  A pixel coordinate is the tuple \<open>(x, y)\<close>. Neighbour coordinates are computed by
  adding a direction, so they may be negative: coordinates are integers.
\<close>

type_synonym pixel = "int \<times> int"

text \<open>
  \<open>labelled_dict\<close> is a Python dict \<open>{label: [pixels]}\<close>. The code iterates over it,
  so its insertion order matters: it is an association list with distinct keys,
  \<open>AList.update\<close> for item assignment (in place, or appended when the key is new) and
  \<open>AList.delete\<close> for \<open>del\<close>.
\<close>

type_synonym labelled_dict = "(int \<times> pixel list) list"

text \<open>
  The image is the external PIL object. The code reads \<open>image.width\<close>,
  \<open>image.height\<close>, \<open>image.getpixel((x, y))\<close> and \<open>image.getcolors(maxcolors)\<close>; the
  last returns an unsorted list of \<open>(count, pixel)\<close> values, or \<open>None\<close> when there are
  more than \<open>maxcolors\<close> colours.
\<close>

record 'c image =
  image_width :: nat
  image_height :: nat
  getpixel :: "nat \<times> nat \<Rightarrow> 'c"
  getcolors :: "nat \<Rightarrow> (nat \<times> 'c) list option"

text \<open>
  \<open>find_most_common_color\<close> accepts any Python object and catches
  \<open>AttributeError\<close>, so its argument is an object whose attributes may each be
  absent: the width, the height, the per-pixel accessor \<open>getpixel\<close> and the method
  \<open>getcolors\<close>. The \<open>getcolors\<close> of an arbitrary object may raise instead of
  returning; that of an image returns.
\<close>

record 'c object =
  attr_width :: "nat option"
  attr_height :: "nat option"
  attr_getpixel :: "(nat \<times> nat \<Rightarrow> 'c) option"
  attr_getcolors :: "(nat \<Rightarrow> error + (nat \<times> 'c) list option) option"

definition image_object :: "'c image \<Rightarrow> 'c object" where
  "image_object img =
     \<lparr>attr_width = Some (image_width img), attr_height = Some (image_height img),
      attr_getpixel = Some (getpixel img),
      attr_getcolors = Some (\<lambda>maxcolors. Inr (getcolors img maxcolors))\<rparr>"

record sprite =
  label :: int
  top_left :: "int \<times> int"
  bottom_right :: "int \<times> int"
  width :: int
  height :: int

section \<open>Python built-ins\<close>

text \<open>
  \<open>max(xs, key=f)\<close> and \<open>min(xs, key=f)\<close> keep the first extremal element and raise
  \<open>ValueError\<close> on an empty sequence (here \<open>None\<close>).
\<close>

fun max_key :: "('a \<Rightarrow> 'b::linorder) \<Rightarrow> 'a list \<Rightarrow> 'a option" where
  "max_key key [] = None"
| "max_key key (x # xs) = Some (fold (\<lambda>y best. if key best < key y then y else best) xs x)"

fun min_key :: "('a \<Rightarrow> 'b::linorder) \<Rightarrow> 'a list \<Rightarrow> 'a option" where
  "min_key key [] = None"
| "min_key key (x # xs) = Some (fold (\<lambda>y best. if key y < key best then y else best) xs x)"

section \<open>WP1: find_most_common_color\<close>

text \<open>
  The body of the \<open>try\<close>. Reading a missing attribute raises \<open>AttributeError\<close>; an
  exception of the \<open>getcolors\<close> call propagates; \<open>max\<close> raises \<open>TypeError\<close> on
  \<open>None\<close> and \<open>ValueError\<close> on an empty list.
\<close>

definition most_common_color_try :: "'c object \<Rightarrow> error + 'c" where
  "most_common_color_try img =
     (case attr_getcolors img of
        None \<Rightarrow> Inl (AttributeError ''getcolors'')
      | Some getcolors_method \<Rightarrow>
     (case attr_width img of
        None \<Rightarrow> Inl (AttributeError ''width'')
      | Some w \<Rightarrow>
     (case attr_height img of
        None \<Rightarrow> Inl (AttributeError ''height'')
      | Some h \<Rightarrow>
     (case getcolors_method (w * h) of
        Inl e \<Rightarrow> Inl e
      | Inr None \<Rightarrow> Inl (TypeError '''NoneType' object is not iterable'')
      | Inr (Some colors_list) \<Rightarrow>
     (case max_key fst colors_list of
        None \<Rightarrow> Inl (ValueError ''max() arg is an empty sequence'')
      | Some tup \<Rightarrow> Inr (snd tup))))))"

text \<open>The handler \<open>except AttributeError: raise TypeError("Not an Image object!")\<close>.\<close>

fun except_AttributeError :: "error \<Rightarrow> error" where
  "except_AttributeError (AttributeError name) = TypeError ''Not an Image object!''"
| "except_AttributeError e = e"

definition find_most_common_color :: "'c object \<Rightarrow> error + 'c" where
  "find_most_common_color img =
     (case most_common_color_try img of
        Inl e \<Rightarrow> Inl (except_AttributeError e)
      | Inr color \<Rightarrow> Inr color)"

section \<open>WP2: class Sprite\<close>

definition Sprite :: "int \<Rightarrow> int \<Rightarrow> int \<Rightarrow> int \<Rightarrow> int \<Rightarrow> error + sprite" where
  "Sprite lab x1 y1 x2 y2 =
     (if lab \<ge> 0 \<and> x1 \<ge> 0 \<and> y1 \<ge> 0 \<and> x2 \<ge> 0 \<and> y2 \<ge> 0 \<and> x1 \<le> x2 \<and> y1 \<le> y2
      then Inr \<lparr>label = lab, top_left = (x1, y1), bottom_right = (x2, y2),
                width = x2 - x1 + 1, height = y2 - y1 + 1\<rparr>
      else Inl (ValueError ''Invalid coordinates''))"

section \<open>WP3: connected-component labelling\<close>

definition directions :: "(int \<times> int) list" where
  "directions = [(-1,-1), (0,-1), (1,-1), (-1,0), (1,0), (-1,1), (0,1), (1,1)]"

definition check_neighborhood :: "pixel \<Rightarrow> labelled_dict \<Rightarrow> int set" where
  "check_neighborhood pixel_coordinate labelled_dict =
     fold (\<lambda>direction equivalence.
             let neighbor = (fst pixel_coordinate + fst direction,
                             snd pixel_coordinate + snd direction)
             in fold (\<lambda>(lab, list_pixels) equivalence.
                        if neighbor \<in> set list_pixels then insert lab equivalence
                        else equivalence)
                     labelled_dict equivalence)
          directions {}"

definition find_label :: "pixel \<Rightarrow> labelled_dict \<Rightarrow> int set list \<Rightarrow> int \<times> int set list" where
  "find_label pixel_coordinate labelled_dict equivalence_list =
     (if labelled_dict = [] then (1, equivalence_list)
      else
        let equivalence = check_neighborhood pixel_coordinate labelled_dict in
        if equivalence \<noteq> {} then (Min equivalence, equivalence_list @ [equivalence])
        else (Max (set (map fst labelled_dict)) + 1, equivalence_list))"

text \<open>The body of the two scan loops of \<open>create_labelled_dict\<close> (Pass 1).\<close>

definition label_pixel ::
  "'c image \<Rightarrow> 'c \<Rightarrow> nat \<Rightarrow> nat \<Rightarrow> labelled_dict \<times> int set list \<Rightarrow> labelled_dict \<times> int set list"
where
  "label_pixel img background_color y x st =
     (case st of (labelled_dict, equivalence_list) \<Rightarrow>
        if getpixel img (x, y) \<noteq> background_color then
          let pixel_coordinate = (int x, int y) in
          (case find_label pixel_coordinate labelled_dict equivalence_list of
             (pixel_label, equivalence_list') \<Rightarrow>
               (case map_of labelled_dict pixel_label of
                  Some list_pixels \<Rightarrow>
                    (AList.update pixel_label (list_pixels @ [pixel_coordinate]) labelled_dict,
                     equivalence_list')
                | None \<Rightarrow>
                    (AList.update pixel_label [pixel_coordinate] labelled_dict,
                     equivalence_list')))
        else st)"

definition first_pass :: "'c image \<Rightarrow> 'c \<Rightarrow> labelled_dict \<times> int set list" where
  "first_pass img background_color =
     fold (\<lambda>y. fold (\<lambda>x. label_pixel img background_color y x) [0..<image_width img])
          [0..<image_height img] ([], [])"

text \<open>
  Pass 2, \<open>update_label\<close>. The sets of \<open>equivalence_list\<close> are mutable objects, and
  \<open>equivalence_dict[label] = sets\<close> stores a reference, not a copy: a later
  \<open>equivalence_dict[label].update(sets)\<close> changes the object inside
  \<open>equivalence_list\<close> too, and every other key that refers to it. So the list is the
  store, an object's address is its index, and \<open>equivalence_dict\<close> maps a label to
  an address.
\<close>

definition merge_record ::
  "int \<Rightarrow> nat \<Rightarrow> (int \<times> nat) list \<times> int set list \<Rightarrow> (int \<times> nat) list \<times> int set list"
where
  "merge_record lab j st =
     (case st of (equivalence_dict, store) \<Rightarrow>
        if lab \<in> store ! j then
          (case map_of equivalence_dict lab of
             Some i \<Rightarrow> (equivalence_dict, store[i := store ! i \<union> store ! j])
           | None \<Rightarrow> (AList.update lab j equivalence_dict, store))
        else st)"

definition collect_equivalence ::
  "labelled_dict \<Rightarrow> int set list \<Rightarrow> (int \<times> nat) list \<times> int set list" where
  "collect_equivalence labelled_dict equivalence_list =
     fold (\<lambda>lab. fold (merge_record lab) [0..<length equivalence_list])
          (map fst labelled_dict) ([], equivalence_list)"

text \<open>The second loop replaces every reference by the minimum of the object it points to.\<close>

definition reduce_equivalence :: "(int \<times> nat) list \<times> int set list \<Rightarrow> (int \<times> int) list" where
  "reduce_equivalence st =
     (case st of (equivalence_dict, store) \<Rightarrow>
        map (\<lambda>(key, i). (key, Min (store ! i))) equivalence_dict)"

text \<open>
  The body of the third loop. Each of the three subscripts raises \<open>KeyError\<close> on a
  missing key.
\<close>

definition relabel :: "(int \<times> int) list \<Rightarrow> int \<Rightarrow> labelled_dict \<Rightarrow> error + labelled_dict" where
  "relabel equivalence_dict lab labelled_dict =
     (case map_of equivalence_dict lab of
        None \<Rightarrow> Inl (KeyError lab)
      | Some reduced_label \<Rightarrow>
          if reduced_label \<noteq> lab then
            (case map_of labelled_dict reduced_label of
               None \<Rightarrow> Inl (KeyError reduced_label)
             | Some target \<Rightarrow>
                 (case map_of labelled_dict lab of
                    None \<Rightarrow> Inl (KeyError lab)
                  | Some moved \<Rightarrow>
                      Inr (AList.delete lab
                             (AList.update reduced_label (target @ moved) labelled_dict))))
          else Inr labelled_dict)"

fun relabel_all :: "(int \<times> int) list \<Rightarrow> int list \<Rightarrow> labelled_dict \<Rightarrow> error + labelled_dict" where
  "relabel_all equivalence_dict [] labelled_dict = Inr labelled_dict"
| "relabel_all equivalence_dict (lab # labs) labelled_dict =
     (case relabel equivalence_dict lab labelled_dict of
        Inl e \<Rightarrow> Inl e
      | Inr labelled_dict' \<Rightarrow> relabel_all equivalence_dict labs labelled_dict')"

definition update_label :: "labelled_dict \<Rightarrow> int set list \<Rightarrow> error + labelled_dict" where
  "update_label labelled_dict equivalence_list =
     relabel_all (reduce_equivalence (collect_equivalence labelled_dict equivalence_list))
       (map fst labelled_dict) labelled_dict"

definition create_labelled_dict :: "'c image \<Rightarrow> 'c \<Rightarrow> error + labelled_dict" where
  "create_labelled_dict img background_color =
     (case first_pass img background_color of
        (labelled_dict, equivalence_list) \<Rightarrow> update_label labelled_dict equivalence_list)"

definition create_label_map :: "labelled_dict \<Rightarrow> 'c image \<Rightarrow> int list list" where
  "create_label_map labelled_dict img =
     map (\<lambda>y. map (\<lambda>x. fold (\<lambda>(lab, list_pixels) pixel_label.
                               if (int x, int y) \<in> set list_pixels then lab else pixel_label)
                            labelled_dict 0)
                [0..<image_width img])
         [0..<image_height img]"

text \<open>The body of the loop of \<open>find_sprites\<close> that builds one Sprite per label.\<close>

definition bounding_sprite :: "int \<Rightarrow> pixel list \<Rightarrow> error + sprite" where
  "bounding_sprite lab list_pixels =
     (case (min_key fst list_pixels, max_key fst list_pixels,
            min_key snd list_pixels, max_key snd list_pixels) of
        (Some a, Some b, Some c, Some d) \<Rightarrow> Sprite lab (fst a) (snd c) (fst b) (snd d)
      | _ \<Rightarrow> Inl (ValueError ''min() arg is an empty sequence''))"

fun build_sprites :: "labelled_dict \<Rightarrow> (int \<times> sprite) list \<Rightarrow> error + (int \<times> sprite) list" where
  "build_sprites [] sprites = Inr sprites"
| "build_sprites ((lab, list_pixels) # rest) sprites =
     (case bounding_sprite lab list_pixels of
        Inl e \<Rightarrow> Inl e
      | Inr s \<Rightarrow> build_sprites rest (AList.update lab s sprites))"

definition find_sprites ::
  "'c image \<Rightarrow> 'c option \<Rightarrow> error + ((int \<times> sprite) list \<times> int list list)" where
  "find_sprites img background_color =
     (case (case background_color of
              None \<Rightarrow> find_most_common_color (image_object img)
            | Some c \<Rightarrow> Inr c) of
        Inl e \<Rightarrow> Inl e
      | Inr bg \<Rightarrow>
     (case create_labelled_dict img bg of
        Inl e \<Rightarrow> Inl e
      | Inr labelled_dict \<Rightarrow>
     (case build_sprites labelled_dict [] of
        Inl e \<Rightarrow> Inl e
      | Inr sprites \<Rightarrow> Inr (sprites, create_label_map labelled_dict img))))"

section \<open>Test images\<close>

text \<open>
  A grayscale image given by its rows. \<open>getcolors\<close> is what PIL returns for a
  grayscale image: the non-zero entries of the histogram, by ascending pixel value.
\<close>

definition gray_image :: "nat list list \<Rightarrow> nat image" where
  "gray_image rows =
     \<lparr>image_width = (case rows of [] \<Rightarrow> 0 | r # _ \<Rightarrow> length r),
      image_height = length rows,
      getpixel = (\<lambda>(x, y). rows ! y ! x),
      getcolors = (\<lambda>maxcolors.
         let out = map (\<lambda>v. (count_list (concat rows) v, v))
                       (sorted_list_of_set (set (concat rows)))
         in if length out > maxcolors then None else Some out)\<rparr>"

text \<open>
  Seven foreground pixels (value 1) in the shape of a W on a 5 x 3 canvas: two bars on
  the left and right, a single pixel in the middle of row 1, joined diagonally by the
  two pixels of row 2.
\<close>

definition w_image :: "nat image" where
  "w_image = gray_image [[1,0,0,0,1],
                         [1,0,1,0,1],
                         [0,1,0,1,0]]"

text \<open>Two foreground pixels at (0,0) and (2,2) on a 3 x 3 canvas.\<close>

definition gap_image :: "nat image" where
  "gap_image = gray_image [[1,0,0],
                           [0,0,0],
                           [0,0,1]]"

text \<open>A 2 x 1 grayscale image in which the values 5 and 3 cover one pixel each.\<close>

definition tie_image :: "nat image" where
  "tie_image = gray_image [[5, 3]]"




section \<open>Notions of the specification\<close>


text \<open>
  The foreground pixels of an image in row-major order, 8-adjacency of two pixels, and
  a chain of pixels in which each one is 8-adjacent to the next: the pixels of a chain
  lie in one connected region.
\<close>

definition foreground_pixels :: "'c image \<Rightarrow> 'c \<Rightarrow> pixel list" where
  "foreground_pixels img background_color =
     concat (map (\<lambda>y. map (\<lambda>x. (int x, int y))
                          (filter (\<lambda>x. getpixel img (x, y) \<noteq> background_color)
                                  [0..<image_width img]))
                 [0..<image_height img])"

definition adjacent8 :: "pixel \<Rightarrow> pixel \<Rightarrow> bool" where
  "adjacent8 p q = (p \<noteq> q \<and> \<bar>fst p - fst q\<bar> \<le> 1 \<and> \<bar>snd p - snd q\<bar> \<le> 1)"

fun chain8 :: "pixel list \<Rightarrow> bool" where
  "chain8 (p # q # ps) = (adjacent8 p q \<and> chain8 (q # ps))"
| "chain8 _ = True"

text \<open>
  The pixel values of an image in row-major scan order (y outer, x inner), and the
  tie-break the specification asks for: of the values with the highest count, the one
  met first in that order.
\<close>

definition pixels_row_major :: "'c image \<Rightarrow> 'c list" where
  "pixels_row_major img =
     concat (map (\<lambda>y. map (\<lambda>x. getpixel img (x, y)) [0..<image_width img])
                 [0..<image_height img])"

definition spec_most_common_color :: "'c image \<Rightarrow> 'c option" where
  "spec_most_common_color img =
     (let ps = pixels_row_major img
      in find (\<lambda>c. list_all (\<lambda>d. count_list ps d \<le> count_list ps c) ps) ps)"

text \<open>
  What the imaging library promises of \<open>getcolors\<close>: each colour of the image is listed
  once, with its number of pixels. The order of the list is the library's.
\<close>

definition counts_pixels :: "'c image \<Rightarrow> (nat \<times> 'c) list \<Rightarrow> bool" where
  "counts_pixels img colors_list =
     (distinct (map snd colors_list)
      \<and> set (map snd colors_list) = set (pixels_row_major img)
      \<and> list_all (\<lambda>(n, c). n = count_list (pixels_row_major img) c) colors_list)"

text \<open>
  A foreground pixel is a coordinate inside the canvas whose colour is not the
  background colour. It is isolated when none of its eight neighbours is a foreground
  pixel: it is a connected component of exactly one pixel.
\<close>

definition foreground :: "'c image \<Rightarrow> 'c \<Rightarrow> pixel \<Rightarrow> bool" where
  "foreground img background_color p =
     (0 \<le> fst p \<and> fst p < int (image_width img) \<and> 0 \<le> snd p \<and> snd p < int (image_height img)
      \<and> getpixel img (nat (fst p), nat (snd p)) \<noteq> background_color)"

definition isolated :: "'c image \<Rightarrow> 'c \<Rightarrow> pixel \<Rightarrow> bool" where
  "isolated img background_color p =
     (foreground img background_color p
      \<and> list_all (\<lambda>d. \<not> foreground img background_color (fst p + fst d, snd p + snd d))
                 directions)"

section \<open>Invariants of Pass 1\<close>

text \<open>
  The coordinates the scan has visited when it stands at column \<open>x\<close> of row \<open>y\<close>: the
  rows above, and the columns of row \<open>y\<close> to the left.
\<close>

definition scanned :: "nat \<Rightarrow> nat \<Rightarrow> nat \<Rightarrow> pixel set" where
  "scanned w y x =
     {(i, j). 0 \<le> i \<and> i < int w \<and> 0 \<le> j \<and> (j < int y \<or> j = int y \<and> i < int x)}"

text \<open>
  The dict is well formed with respect to the visited coordinates \<open>S\<close>: its keys are
  distinct and positive, it lists visited coordinates only, and no coordinate is listed
  under two labels.
\<close>

definition dict_ok :: "pixel set \<Rightarrow> labelled_dict \<Rightarrow> bool" where
  "dict_ok S ld =
     (distinct (map fst ld)
      \<and> (\<forall>(l, ps)\<in>set ld. 1 \<le> l \<and> set ps \<subseteq> S)
      \<and> (\<forall>(l, ps)\<in>set ld. \<forall>(l', ps')\<in>set ld. l \<noteq> l' \<longrightarrow> set ps \<inter> set ps' = {}))"

text \<open>
  What Pass 1 keeps true of an isolated pixel \<open>p\<close>: only foreground pixels are listed,
  the equivalence sets hold keys of the dict only, \<open>p\<close> is alone under its label and
  that label is in no equivalence set, and \<open>p\<close> is listed once it has been visited.
\<close>

definition iso_ok ::
  "'c image \<Rightarrow> 'c \<Rightarrow> pixel \<Rightarrow> pixel set \<Rightarrow> labelled_dict \<times> int set list \<Rightarrow> bool" where
  "iso_ok img background_color p S st =
     (case st of (ld, eql) \<Rightarrow>
        (\<forall>(l, ps)\<in>set ld. \<forall>q\<in>set ps. foreground img background_color q)
        \<and> \<Union>(set eql) \<subseteq> fst ` set ld
        \<and> (\<forall>(l, ps)\<in>set ld. p \<in> set ps \<longrightarrow> ps = [p] \<and> l \<notin> \<Union>(set eql))
        \<and> (p \<in> S \<longrightarrow> (\<exists>(l, ps)\<in>set ld. p \<in> set ps)))"

section \<open>Sprite construction\<close>

text \<open>
  C8. Constructing a Sprite raises the error (\<open>ValueError("Invalid coordinates")\<close>)
  exactly when the label or a coordinate is negative, or \<open>x1 > x2\<close>, or \<open>y1 > y2\<close>.
  Otherwise the Sprite is built with \<open>top_left = (x1, y1)\<close>, \<open>bottom_right = (x2, y2)\<close>,
  \<open>width = x2 - x1 + 1\<close> and \<open>height = y2 - y1 + 1\<close>. The class has read-only properties
  only, and the value built here is immutable.
\<close>

theorem Sprite_invalid_geometry:
  "((Sprite lab x1 y1 x2 y2 = Inl (ValueError ''Invalid coordinates''))
      = (lab < 0 \<or> x1 < 0 \<or> y1 < 0 \<or> x2 < 0 \<or> y2 < 0 \<or> x1 > x2 \<or> y1 > y2))
   \<and> (\<not> (lab < 0 \<or> x1 < 0 \<or> y1 < 0 \<or> x2 < 0 \<or> y2 < 0 \<or> x1 > x2 \<or> y1 > y2) \<longrightarrow>
        (\<exists>s. Sprite lab x1 y1 x2 y2 = Inr s \<and> label s = lab \<and> top_left s = (x1, y1)
           \<and> bottom_right s = (x2, y2) \<and> width s = x2 - x1 + 1 \<and> height s = y2 - y1 + 1))"
  by (auto simp: Sprite_def)

theorem Sprite_invalid_geometry_witness:
  "(\<exists>s. Sprite 1 12 23 145 208 = Inr s \<and> label s = 1 \<and> top_left s = (12, 23)
      \<and> bottom_right s = (145, 208) \<and> width s = 145 - 12 + 1 \<and> height s = 208 - 23 + 1)
   \<and> Sprite 1 1 0 0 0 = Inl (ValueError ''Invalid coordinates'')"
proof
  have "\<not> ((1::int) < 0 \<or> (12::int) < 0 \<or> (23::int) < 0 \<or> (145::int) < 0 \<or> (208::int) < 0
           \<or> (12::int) > 145 \<or> (23::int) > 208)"
    by simp
  then show "\<exists>s. Sprite 1 12 23 145 208 = Inr s \<and> label s = 1 \<and> top_left s = (12, 23)
      \<and> bottom_right s = (145, 208) \<and> width s = 145 - 12 + 1 \<and> height s = 208 - 23 + 1"
    by (rule Sprite_invalid_geometry [of 1 12 23 145 208, THEN conjunct2, rule_format])
next
  have "(1::int) < 0 \<or> (1::int) < 0 \<or> (0::int) < 0 \<or> (0::int) < 0 \<or> (0::int) < 0
           \<or> (1::int) > 0 \<or> (0::int) > 0"
    by simp
  then show "Sprite 1 1 0 0 0 = Inl (ValueError ''Invalid coordinates'')"
    by (rule Sprite_invalid_geometry [of 1 1 0 0 0, THEN conjunct1, THEN iffD2])
qed

section \<open>The most common colour\<close>




text \<open>\<open>max\<close> with a key returns the first element whose key is maximal.\<close>

lemma fold_max_first:
  "\<exists>i<length (b # xs).
      fold (\<lambda>y best. if key best < key y then y else best) xs b = (b # xs) ! i
      \<and> (\<forall>j<length (b # xs). key ((b # xs) ! j) \<le> key ((b # xs) ! i))
      \<and> (\<forall>j<i. key ((b # xs) ! j) < key ((b # xs) ! i))"
  for key :: "'a \<Rightarrow> 'b::linorder"
proof (induction xs rule: rev_induct)
  case Nil
  then show ?case by simp
next
  case (snoc y xs)
  let ?f = "\<lambda>y best. if key best < key y then y else best"
  define l where "l = b # xs"
  from snoc obtain i where i: "i < length l" "fold ?f xs b = l ! i"
    "\<forall>j<length l. key (l ! j) \<le> key (l ! i)" "\<forall>j<i. key (l ! j) < key (l ! i)"
    unfolding l_def by blast
  have app: "b # xs @ [y] = l @ [y]" by (simp add: l_def)
  have old: "(l @ [y]) ! j = l ! j" if "j < length l" for j
    using that by (simp add: nth_append)
  have new: "(l @ [y]) ! length l = y" by simp
  have len: "j < length (l @ [y]) \<longleftrightarrow> j < length l \<or> j = length l" for j
    by auto
  have step: "fold ?f (xs @ [y]) b = (if key (l ! i) < key y then y else l ! i)"
    using i(2) by simp
  show ?case
  proof (cases "key (l ! i) < key y")
    case True
    have "length l < length (l @ [y])" by simp
    moreover have "fold ?f (xs @ [y]) b = (l @ [y]) ! length l"
      using True step new by simp
    moreover have "\<forall>j<length (l @ [y]). key ((l @ [y]) ! j) \<le> key ((l @ [y]) ! length l)"
      using i(3) True unfolding len new by (auto simp: old intro: order.trans less_imp_le)
    moreover have "\<forall>j<length l. key ((l @ [y]) ! j) < key ((l @ [y]) ! length l)"
      using i(3) True unfolding new by (auto simp: old intro: le_less_trans)
    ultimately show ?thesis unfolding app by blast
  next
    case False
    have "i < length (l @ [y])" using i(1) by simp
    moreover have "fold ?f (xs @ [y]) b = (l @ [y]) ! i"
      using False step i(1) by (simp add: old)
    moreover have "\<forall>j<length (l @ [y]). key ((l @ [y]) ! j) \<le> key ((l @ [y]) ! i)"
      using i(1,3) False unfolding len by (auto simp: old)
    moreover have "\<forall>j<i. key ((l @ [y]) ! j) < key ((l @ [y]) ! i)"
      using i(1,4) by (auto simp: old)
    ultimately show ?thesis unfolding app by blast
  qed
qed

lemma max_key_first:
  fixes key :: "'a \<Rightarrow> 'b::linorder"
  assumes "xs \<noteq> []"
  shows "\<exists>i<length xs. max_key key xs = Some (xs ! i)
           \<and> (\<forall>j<length xs. key (xs ! j) \<le> key (xs ! i))
           \<and> (\<forall>j<i. key (xs ! j) < key (xs ! i))"
proof -
  from assms obtain b ys where xs: "xs = b # ys" by (cases xs) auto
  show ?thesis unfolding xs max_key.simps using fold_max_first [of b ys key] by blast
qed

lemma counts_pixels_fst:
  assumes "counts_pixels img colors_list" "j < length colors_list"
  shows "fst (colors_list ! j) = count_list (pixels_row_major img) (snd (colors_list ! j))"
proof -
  have "colors_list ! j \<in> set colors_list" using assms(2) by simp
  then show ?thesis
    using assms(1) by (auto simp: counts_pixels_def list_all_iff)
qed

text \<open>
  C6, as the code has it. \<open>find_most_common_color\<close> returns a value with the highest
  count, and of the values tied for it the one that comes first in the list returned
  by \<open>getcolors\<close>: every entry before it in that list has a strictly smaller count.
\<close>

theorem find_most_common_color_first_in_getcolors:
  assumes "getcolors img (image_width img * image_height img) = Some colors_list"
    and "counts_pixels img colors_list" and "colors_list \<noteq> []"
  shows "\<exists>i<length colors_list.
           find_most_common_color (image_object img) = Inr (snd (colors_list ! i))
         \<and> (\<forall>d. count_list (pixels_row_major img) d
                  \<le> count_list (pixels_row_major img) (snd (colors_list ! i)))
         \<and> (\<forall>j<i. count_list (pixels_row_major img) (snd (colors_list ! j))
                  < count_list (pixels_row_major img) (snd (colors_list ! i)))"
proof -
  let ?ps = "pixels_row_major img"
  from max_key_first [OF assms(3), of fst] obtain i where i: "i < length colors_list"
    "max_key fst colors_list = Some (colors_list ! i)"
    "\<forall>j<length colors_list. fst (colors_list ! j) \<le> fst (colors_list ! i)"
    "\<forall>j<i. fst (colors_list ! j) < fst (colors_list ! i)"
    by blast
  have res: "find_most_common_color (image_object img) = Inr (snd (colors_list ! i))"
    using assms(1) i(2) by (simp add: find_most_common_color_def most_common_color_try_def image_object_def)
  have top: "count_list ?ps d \<le> count_list ?ps (snd (colors_list ! i))" for d
  proof (cases "d \<in> set ?ps")
    case True
    then have "d \<in> set (map snd colors_list)" using assms(2) by (simp add: counts_pixels_def)
    then obtain j where j: "j < length colors_list" "d = snd (colors_list ! j)"
      by (auto simp: in_set_conv_nth)
    have "count_list ?ps d = fst (colors_list ! j)"
      using counts_pixels_fst [OF assms(2) j(1)] j(2) by simp
    also have "\<dots> \<le> fst (colors_list ! i)" using i(3) j(1) by blast
    also have "\<dots> = count_list ?ps (snd (colors_list ! i))"
      by (rule counts_pixels_fst [OF assms(2) i(1)])
    finally show ?thesis .
  next
    case False
    then show ?thesis by (simp add: count_list_0_iff)
  qed
  have before: "count_list ?ps (snd (colors_list ! j)) < count_list ?ps (snd (colors_list ! i))"
    if "j < i" for j
  proof -
    have "j < length colors_list" using that i(1) by simp
    from counts_pixels_fst [OF assms(2) this] counts_pixels_fst [OF assms(2) i(1)]
    have "count_list ?ps (snd (colors_list ! j)) = fst (colors_list ! j)"
      "count_list ?ps (snd (colors_list ! i)) = fst (colors_list ! i)"
      by simp_all
    moreover have "fst (colors_list ! j) < fst (colors_list ! i)" using i(4) that by blast
    ultimately show ?thesis by simp
  qed
  from i(1) res top before show ?thesis by blast
qed

theorem find_most_common_color_first_in_getcolors_witness:
  "getcolors tie_image (image_width tie_image * image_height tie_image) = Some [(1::nat, 3::nat), (1, 5)]
   \<and> counts_pixels tie_image [(1::nat, 3::nat), (1, 5)]
   \<and> (\<exists>i<length [(1::nat, 3::nat), (1, 5)].
           find_most_common_color (image_object tie_image) = Inr (snd ([(1::nat, 3::nat), (1, 5)] ! i))
         \<and> (\<forall>d. count_list (pixels_row_major tie_image) d
                  \<le> count_list (pixels_row_major tie_image) (snd ([(1::nat, 3::nat), (1, 5)] ! i)))
         \<and> (\<forall>j<i. count_list (pixels_row_major tie_image) (snd ([(1::nat, 3::nat), (1, 5)] ! j))
                  < count_list (pixels_row_major tie_image) (snd ([(1::nat, 3::nat), (1, 5)] ! i))))"
proof -
  have h1: "getcolors tie_image (image_width tie_image * image_height tie_image)
              = Some [(1::nat, 3::nat), (1, 5)]"
    by code_simp
  have h2: "counts_pixels tie_image [(1::nat, 3::nat), (1, 5)]"
    by code_simp
  have h3: "[(1::nat, 3::nat), (1, 5)] \<noteq> []"
    by simp
  show ?thesis
    by (intro conjI h1 h2 find_most_common_color_first_in_getcolors [OF h1 h2 h3])
qed

text \<open>
  C6, as stated, fails. In the 2 x 1 grayscale image with pixels 5, 3 both values cover
  half of the pixels and 5 comes first in row-major order, but \<open>getcolors\<close> lists the
  values in ascending order and \<open>find_most_common_color\<close> returns 3.
\<close>

theorem find_most_common_color_tie_counterexample:
  "pixels_row_major tie_image = [5, 3]
   \<and> getcolors tie_image (image_width tie_image * image_height tie_image) = Some [(1::nat, 3::nat), (1, 5)]
   \<and> counts_pixels tie_image [(1::nat, 3::nat), (1, 5)]
   \<and> spec_most_common_color tie_image = Some 5
   \<and> find_most_common_color (image_object tie_image) = Inr 3"
  by code_simp

section \<open>Equivalence resolution on concrete images\<close>

text \<open>
  C1. On the W-shaped image Pass 1 hands out three provisional labels and records the
  equivalences \<open>{1}, {2}, {1,3}, {2,3}\<close>. Labels 1, 2 and 3 are in one closure, through 3,
  but \<open>update_label\<close> keeps label 2 apart: the result has the two keys 1 and 2.
\<close>

theorem update_label_w_image_keeps_label_2:
  "first_pass w_image 0 =
     ([(1, [(0, 0), (0, 1), (1, 2)]), (2, [(4, 0), (4, 1), (3, 2)]), (3, [(2, 1)])],
      [{1}, {2}, {1, 3}, {2, 3}])
   \<and> update_label [(1, [(0, 0), (0, 1), (1, 2)]), (2, [(4, 0), (4, 1), (3, 2)]), (3, [(2, 1)])]
        [{1}, {2}, {1, 3}, {2, 3}] =
       Inr [(1, [(0, 0), (0, 1), (1, 2), (2, 1)]), (2, [(4, 0), (4, 1), (3, 2)])]"
  by code_simp

text \<open>
  C2. With foreground pixels at (0,0) and (2,2) only, \<open>find_sprites\<close> returns no sprites
  at all: it raises \<open>KeyError(1)\<close>.
\<close>

theorem find_sprites_gap_image_KeyError:
  "find_sprites gap_image (Some 0) = Inl (KeyError 1)"
  by code_simp

text \<open>
  C4. The foreground of the W-shaped image is one connected region: its seven pixels
  form a chain of 8-adjacent pixels. \<open>find_sprites\<close> returns two sprites for it, and
  neither has the bounding box (0,0)-(4,2) of the region.
\<close>

theorem find_sprites_w_image_two_sprites:
  "chain8 [(0, 0), (0, 1), (1, 2), (2, 1), (3, 2), (4, 1), (4, 0)]
   \<and> set [(0, 0), (0, 1), (1, 2), (2, 1), (3, 2), (4, 1), (4, 0)] = set (foreground_pixels w_image 0)
   \<and> find_sprites w_image (Some 0) =
       Inr ([(1, \<lparr>label = 1, top_left = (0, 0), bottom_right = (2, 2), width = 3, height = 3\<rparr>),
             (2, \<lparr>label = 2, top_left = (3, 0), bottom_right = (4, 2), width = 2, height = 3\<rparr>)],
            [[1, 0, 0, 0, 2], [1, 0, 1, 0, 2], [0, 1, 0, 2, 0]])"
  by code_simp

section \<open>Uniform images\<close>

lemma fold_unchanged: "(\<And>x. x \<in> set xs \<Longrightarrow> f x st = st) \<Longrightarrow> fold f xs st = st"
  by (induction xs) simp_all

lemma label_pixel_background:
  "getpixel img (x, y) = background_color \<Longrightarrow> label_pixel img background_color y x st = st"
  by (simp add: label_pixel_def split: prod.splits)

lemma first_pass_uniform:
  assumes "\<forall>y<image_height img. \<forall>x<image_width img. getpixel img (x, y) = c"
  shows "first_pass img c = ([], [])"
  unfolding first_pass_def
proof (rule fold_unchanged)
  fix y assume "y \<in> set [0..<image_height img]"
  then have y: "y < image_height img" by simp
  show "fold (\<lambda>x. label_pixel img c y x) [0..<image_width img] ([], []) = ([], [])"
  proof (rule fold_unchanged)
    fix x assume "x \<in> set [0..<image_width img]"
    then have "getpixel img (x, y) = c" using assms y by simp
    then show "label_pixel img c y x ([], []) = ([], [])" by (rule label_pixel_background)
  qed
qed

lemma update_label_empty: "update_label [] [] = Inr []"
  by (simp add: update_label_def)

lemma create_label_map_empty:
  "create_label_map [] img = replicate (image_height img) (replicate (image_width img) 0)"
  by (simp add: create_label_map_def map_replicate_const)

text \<open>
  C9. When every pixel of the image has the background colour, \<open>find_sprites\<close> returns
  no sprite and a label map that is 0 in every cell.
\<close>

theorem find_sprites_uniform:
  assumes "\<forall>y<image_height img. \<forall>x<image_width img. getpixel img (x, y) = c"
  shows "find_sprites img (Some c) =
           Inr ([], replicate (image_height img) (replicate (image_width img) 0))"
  using first_pass_uniform [OF assms]
  by (simp add: find_sprites_def create_labelled_dict_def update_label_empty create_label_map_empty)

theorem find_sprites_uniform_witness:
  "find_sprites (gray_image [[7, 7, 7], [7, 7, 7]]) (Some 7) = Inr ([], [[0, 0, 0], [0, 0, 0]])"
proof -
  have "\<forall>y<image_height (gray_image [[7, 7, 7], [7, 7, 7]]).
          \<forall>x<image_width (gray_image [[7, 7, 7], [7, 7, 7]]).
            getpixel (gray_image [[7, 7, 7], [7, 7, 7]]) (x, y) = 7"
    by (simp add: gray_image_def less_Suc_eq numeral_2_eq_2 numeral_3_eq_3 nth_Cons')
  from find_sprites_uniform [OF this] show ?thesis
    by (simp add: gray_image_def numeral_2_eq_2 numeral_3_eq_3)
qed

section \<open>One step of Pass 1\<close>

text \<open>
  \<open>check_neighborhood\<close> collects the labels under which a neighbour of the pixel is
  listed.
\<close>

lemma fold_labels_of_neighbor:
  "fold (\<lambda>(lab, list_pixels) equivalence.
           if neighbor \<in> set list_pixels then insert lab equivalence else equivalence) ld e
   = e \<union> {l. \<exists>ps. (l, ps) \<in> set ld \<and> neighbor \<in> set ps}"
  by (induction ld arbitrary: e) (auto split: if_splits)

lemma fold_union: "fold (\<lambda>d e. e \<union> N d) ds e = e \<union> \<Union>(N ` set ds)"
  by (induction ds arbitrary: e) auto

lemma check_neighborhood_iff:
  "l \<in> check_neighborhood c ld \<longleftrightarrow>
     (\<exists>ps d. (l, ps) \<in> set ld \<and> d \<in> set directions \<and> (fst c + fst d, snd c + snd d) \<in> set ps)"
proof -
  have "check_neighborhood c ld =
          fold (\<lambda>d e. e \<union> {l. \<exists>ps. (l, ps) \<in> set ld \<and> (fst c + fst d, snd c + snd d) \<in> set ps})
               directions {}"
    unfolding check_neighborhood_def Let_def fold_labels_of_neighbor ..
  then show ?thesis unfolding fold_union by fastforce
qed

lemma check_neighborhood_keys: "check_neighborhood c ld \<subseteq> fst ` set ld"
  by (force simp: check_neighborhood_iff)

lemma finite_check_neighborhood: "finite (check_neighborhood c ld)"
  by (rule finite_subset [OF check_neighborhood_keys]) simp

lemma update_new_key: "k \<notin> fst ` set al \<Longrightarrow> AList.update k v al = al @ [(k, v)]"
  by (induction al) auto

lemma set_update_distinct:
  "distinct (map fst al) \<Longrightarrow> (k, u) \<in> set al \<Longrightarrow>
   set (AList.update k v al) = insert (k, v) (set al - {(k, u)})"
  by (induction al) (auto simp: update_new_key rev_image_eqI)

lemma label_pixel_step:
  assumes "getpixel img (x, y) \<noteq> bg" and "\<forall>k\<in>fst ` set ld. 1 \<le> k"
    and "distinct (map fst ld)"
  shows "\<exists>l. (l \<notin> fst ` set ld \<and> 1 \<le> l \<and> check_neighborhood (int x, int y) ld = {}
              \<and> label_pixel img bg y x (ld, eql) = (ld @ [(l, [(int x, int y)])], eql))
           \<or> (\<exists>ps. (l, ps) \<in> set ld \<and> l \<in> check_neighborhood (int x, int y) ld
              \<and> label_pixel img bg y x (ld, eql)
                  = (AList.update l (ps @ [(int x, int y)]) ld,
                     eql @ [check_neighborhood (int x, int y) ld]))"
proof -
  let ?c = "(int x, int y)"
  let ?eq = "check_neighborhood ?c ld"
  show ?thesis
  proof (cases "?eq = {}")
    case True
    define l where "l = (if ld = [] then 1 else Max (set (map fst ld)) + 1)"
    have fl: "find_label ?c ld eql = (l, eql)"
      using True by (simp add: find_label_def l_def Let_def)
    have new: "l \<notin> fst ` set ld"
    proof
      assume "l \<in> fst ` set ld"
      then have ne: "ld \<noteq> []" and "l \<le> Max (set (map fst ld))" by auto
      then show False by (simp add: l_def)
    qed
    have pos: "1 \<le> l"
    proof (cases "ld = []")
      case True
      then show ?thesis by (simp add: l_def)
    next
      case False
      then obtain k where k: "k \<in> set (map fst ld)" by (cases ld) auto
      then have "k \<le> Max (set (map fst ld))" by simp
      moreover have "1 \<le> k" using assms(2) k by auto
      ultimately show ?thesis using False by (simp add: l_def)
    qed
    have none: "map_of ld l = None" using new by (simp add: map_of_eq_None_iff)
    have "label_pixel img bg y x (ld, eql) = (ld @ [(l, [?c])], eql)"
      using assms(1) fl none by (simp add: label_pixel_def Let_def update_new_key [OF new])
    with new pos True show ?thesis by blast
  next
    case False
    define l where "l = Min ?eq"
    have ne: "ld \<noteq> []" using False check_neighborhood_keys [of ?c ld] by auto
    have fl: "find_label ?c ld eql = (l, eql @ [?eq])"
      using False ne by (simp add: find_label_def l_def Let_def)
    have mem: "l \<in> ?eq" unfolding l_def using False finite_check_neighborhood by (rule_tac Min_in)
    then obtain ps where ps: "(l, ps) \<in> set ld" by (auto simp: check_neighborhood_iff)
    then have some: "map_of ld l = Some ps" using assms(3) by simp
    have "label_pixel img bg y x (ld, eql) = (AList.update l (ps @ [?c]) ld, eql @ [?eq])"
      using assms(1) fl some by (simp add: label_pixel_def Let_def)
    with ps mem show ?thesis by blast
  qed
qed

lemma label_pixel_entries:
  assumes "getpixel img (x, y) \<noteq> bg" and "\<forall>k\<in>fst ` set ld. 1 \<le> k"
    and "distinct (map fst ld)"
  shows "\<exists>l ps0 ld' eql'.
           label_pixel img bg y x (ld, eql) = (ld', eql')
         \<and> distinct (map fst ld')
         \<and> set ld' = insert (l, ps0 @ [(int x, int y)]) (set ld - {(l, ps0)})
         \<and> 1 \<le> l
         \<and> (\<forall>ps'. (l, ps') \<in> set ld \<longrightarrow> ps' = ps0)
         \<and> (ps0 = [] \<and> l \<notin> fst ` set ld \<and> eql' = eql
               \<and> check_neighborhood (int x, int y) ld = {}
             \<or> (l, ps0) \<in> set ld \<and> l \<in> check_neighborhood (int x, int y) ld
               \<and> eql' = eql @ [check_neighborhood (int x, int y) ld])"
proof -
  let ?c = "(int x, int y)"
  from label_pixel_step [OF assms, of eql] obtain l where
    l: "(l \<notin> fst ` set ld \<and> 1 \<le> l \<and> check_neighborhood ?c ld = {}
           \<and> label_pixel img bg y x (ld, eql) = (ld @ [(l, [?c])], eql))
        \<or> (\<exists>ps. (l, ps) \<in> set ld \<and> l \<in> check_neighborhood ?c ld
           \<and> label_pixel img bg y x (ld, eql)
               = (AList.update l (ps @ [?c]) ld, eql @ [check_neighborhood ?c ld]))"
    by blast
  then show ?thesis
  proof (elim disjE conjE exE)
    assume a: "l \<notin> fst ` set ld" "1 \<le> l" "check_neighborhood ?c ld = {}"
      "label_pixel img bg y x (ld, eql) = (ld @ [(l, [?c])], eql)"
    have no: "(l, ps') \<notin> set ld" for ps' using a(1) by force
    have "distinct (map fst (ld @ [(l, [?c])]))" using assms(3) a(1) by simp
    moreover have "set (ld @ [(l, [?c])]) = insert (l, [] @ [?c]) (set ld - {(l, [])})"
      using no by auto
    ultimately show ?thesis using a no by blast
  next
    fix ps
    assume b: "(l, ps) \<in> set ld" "l \<in> check_neighborhood ?c ld"
      "label_pixel img bg y x (ld, eql)
         = (AList.update l (ps @ [?c]) ld, eql @ [check_neighborhood ?c ld])"
    have one: "1 \<le> l" using assms(2) b(1) by force
    have uniq: "ps' = ps" if "(l, ps') \<in> set ld" for ps'
      using assms(3) b(1) that by (meson eq_key_imp_eq_value)
    have "distinct (map fst (AList.update l (ps @ [?c]) ld))"
      using assms(3) by (rule distinct_update)
    moreover have "set (AList.update l (ps @ [?c]) ld) = insert (l, ps @ [?c]) (set ld - {(l, ps)})"
      using assms(3) b(1) by (rule set_update_distinct)
    ultimately show ?thesis using b one uniq by blast
  qed
qed

lemma dict_okI:
  assumes "distinct (map fst ld)"
    and "\<And>l ps. (l, ps) \<in> set ld \<Longrightarrow> 1 \<le> l \<and> set ps \<subseteq> S"
    and "\<And>l ps l' ps'. (l, ps) \<in> set ld \<Longrightarrow> (l', ps') \<in> set ld \<Longrightarrow> l \<noteq> l'
           \<Longrightarrow> set ps \<inter> set ps' = {}"
  shows "dict_ok S ld"
  unfolding dict_ok_def
proof (intro conjI ballI)
  show "distinct (map fst ld)" by fact
  show "case e of (l, ps) \<Rightarrow> 1 \<le> l \<and> set ps \<subseteq> S" if "e \<in> set ld" for e
    using assms(2) [of "fst e" "snd e"] that by (simp add: split_beta)
  show "case e of (l, ps) \<Rightarrow> \<forall>(l', ps')\<in>set ld. l \<noteq> l' \<longrightarrow> set ps \<inter> set ps' = {}"
    if "e \<in> set ld" for e
    unfolding split_beta
  proof (intro ballI impI)
    fix e' assume "e' \<in> set ld" "fst e \<noteq> fst e'"
    then show "set (snd e) \<inter> set (snd e') = {}"
      using assms(3) [of "fst e" "snd e" "fst e'" "snd e'"] that by simp
  qed
qed

lemma dict_ok_distinct: "dict_ok S ld \<Longrightarrow> distinct (map fst ld)"
  by (simp add: dict_ok_def)

lemma dict_ok_entry: "dict_ok S ld \<Longrightarrow> (l, ps) \<in> set ld \<Longrightarrow> 1 \<le> l \<and> set ps \<subseteq> S"
  unfolding dict_ok_def by (elim conjE) (drule (1) bspec, simp)

lemma dict_ok_disjoint:
  "dict_ok S ld \<Longrightarrow> (l, ps) \<in> set ld \<Longrightarrow> (l', ps') \<in> set ld \<Longrightarrow> l \<noteq> l'
   \<Longrightarrow> set ps \<inter> set ps' = {}"
  unfolding dict_ok_def by (elim conjE) (drule (1) bspec, simp, drule (1) bspec, simp)

lemma dict_ok_keys: "dict_ok S ld \<Longrightarrow> \<forall>k\<in>fst ` set ld. 1 \<le> k"
  using dict_ok_entry by fastforce

lemma dict_ok_mono:
  assumes "dict_ok S ld" "S \<subseteq> T"
  shows "dict_ok T ld"
proof (rule dict_okI)
  show "distinct (map fst ld)" using assms(1) by (rule dict_ok_distinct)
  show "1 \<le> l \<and> set ps \<subseteq> T" if "(l, ps) \<in> set ld" for l ps
    using dict_ok_entry [OF assms(1) that] assms(2) by auto
  show "set ps \<inter> set ps' = {}" if "(l, ps) \<in> set ld" "(l', ps') \<in> set ld" "l \<noteq> l'"
    for l ps l' ps'
    using assms(1) that by (rule dict_ok_disjoint)
qed

lemma dict_ok_step:
  assumes ok: "dict_ok S ld" and new: "(int x, int y) \<notin> S"
  shows "dict_ok (insert (int x, int y) S) (fst (label_pixel img bg y x (ld, eql)))"
proof (cases "getpixel img (x, y) = bg")
  case True
  then have "label_pixel img bg y x (ld, eql) = (ld, eql)" by (rule label_pixel_background)
  moreover have "dict_ok (insert (int x, int y) S) ld"
    using ok by (rule dict_ok_mono) auto
  ultimately show ?thesis by simp
next
  case False
  let ?c = "(int x, int y)"
  note d = dict_ok_distinct [OF ok] and pos = dict_ok_keys [OF ok]
  from label_pixel_entries [OF False pos d, of eql] obtain l ps0 ld' eql' where
    r1: "label_pixel img bg y x (ld, eql) = (ld', eql')" and r2: "distinct (map fst ld')"
    and r3: "set ld' = insert (l, ps0 @ [?c]) (set ld - {(l, ps0)})" and r4: "1 \<le> l"
    and r5: "\<forall>ps'. (l, ps') \<in> set ld \<longrightarrow> ps' = ps0"
    and r6: "ps0 = [] \<and> l \<notin> fst ` set ld \<and> eql' = eql
               \<and> check_neighborhood (int x, int y) ld = {}
             \<or> (l, ps0) \<in> set ld \<and> l \<in> check_neighborhood (int x, int y) ld
               \<and> eql' = eql @ [check_neighborhood (int x, int y) ld]"
    by (elim exE conjE)
  have r6': "ps0 = [] \<or> (l, ps0) \<in> set ld" using r6 by blast
  have ps0: "set ps0 \<subseteq> S"
    using r6' dict_ok_entry [OF ok, of l ps0] by auto
  have ps0dis: "set ps0 \<inter> set ps' = {}" if "(l', ps') \<in> set ld" "l' \<noteq> l" for l' ps'
    using r6' dict_ok_disjoint [OF ok, of l ps0 l' ps'] that by auto
  have old: "(k, ps) \<in> set ld \<and> k \<noteq> l" if "(k, ps) \<in> set ld'" "(k, ps) \<noteq> (l, ps0 @ [?c])" for k ps
  proof -
    have in_ld: "(k, ps) \<in> set ld" and ne: "(k, ps) \<noteq> (l, ps0)" using that r3 by auto
    have "k \<noteq> l" using in_ld ne r5 by auto
    with in_ld show ?thesis by simp
  qed
  have c1: "set (ps0 @ [?c]) \<inter> set qs = {}" if "(j, qs) \<in> set ld" "j \<noteq> l" for j qs
    using ps0dis [OF that] dict_ok_entry [OF ok that(1)] new by auto
  show ?thesis unfolding r1 fst_conv
  proof (rule dict_okI)
    show "distinct (map fst ld')" by (rule r2)
    show "1 \<le> k \<and> set ps \<subseteq> insert ?c S" if "(k, ps) \<in> set ld'" for k ps
    proof (cases "(k, ps) = (l, ps0 @ [?c])")
      case True
      then show ?thesis using r4 ps0 by auto
    next
      case False
      from old [OF that False] have "(k, ps) \<in> set ld" by simp
      from dict_ok_entry [OF ok this] show ?thesis by auto
    qed
    show "set ps \<inter> set ps' = {}" if "(k, ps) \<in> set ld'" "(k', ps') \<in> set ld'" "k \<noteq> k'"
      for k ps k' ps'
    proof -
      consider "(k, ps) = (l, ps0 @ [?c])" | "(k', ps') = (l, ps0 @ [?c])"
        | "(k, ps) \<noteq> (l, ps0 @ [?c])" "(k', ps') \<noteq> (l, ps0 @ [?c])" by blast
      then show ?thesis
      proof cases
        case 1
        then have "(k', ps') \<noteq> (l, ps0 @ [?c])" using that(3) by auto
        from old [OF that(2) this] have "(k', ps') \<in> set ld" "k' \<noteq> l" by simp_all
        from c1 [OF this] 1 show ?thesis by simp
      next
        case 2
        then have "(k, ps) \<noteq> (l, ps0 @ [?c])" using that(3) by auto
        from old [OF that(1) this] have "(k, ps) \<in> set ld" "k \<noteq> l" by simp_all
        from c1 [OF this] 2 show ?thesis by (simp add: Int_commute)
      next
        case 3
        from old [OF that(1) 3(1)] old [OF that(2) 3(2)]
        have "(k, ps) \<in> set ld" "(k', ps') \<in> set ld" by simp_all
        then show ?thesis using that(3) by (rule dict_ok_disjoint [OF ok])
      qed
    qed
  qed
qed

section \<open>An isolated pixel in Pass 1\<close>

lemma neighbor_symmetric:
  assumes "d \<in> set directions" "(fst c + fst d, snd c + snd d) = p"
  shows "\<exists>d'\<in>set directions. (fst p + fst d', snd p + snd d') = c"
proof -
  from assms(1) have "d = (-1, -1) \<or> d = (0, -1) \<or> d = (1, -1) \<or> d = (-1, 0) \<or> d = (1, 0)
      \<or> d = (-1, 1) \<or> d = (0, 1) \<or> d = (1, 1)"
    by (simp add: directions_def)
  then have "(- fst d, - snd d) \<in> set directions"
    by (elim disjE) (simp_all add: directions_def)
  moreover have "(fst p + fst (- fst d, - snd d), snd p + snd (- fst d, - snd d)) = c"
    unfolding assms(2) [symmetric] by simp
  ultimately show ?thesis by blast
qed

lemma isolated_foreground: "isolated img bg p \<Longrightarrow> foreground img bg p"
  by (simp add: isolated_def)

lemma isolated_neighbor:
  "isolated img bg p \<Longrightarrow> d \<in> set directions \<Longrightarrow> \<not> foreground img bg (fst p + fst d, snd p + snd d)"
  by (simp add: isolated_def list_all_iff)

lemma isolated_no_neighbor:
  assumes "isolated img bg p" "foreground img bg c" "d \<in> set directions"
  shows "(fst c + fst d, snd c + snd d) \<noteq> p"
proof
  assume "(fst c + fst d, snd c + snd d) = p"
  from neighbor_symmetric [OF assms(3) this] obtain d' where
    "d' \<in> set directions" "(fst p + fst d', snd p + snd d') = c" by blast
  with isolated_neighbor [OF assms(1), of d'] assms(2) show False by simp
qed

lemma iso_okI:
  assumes "\<And>l ps q. (l, ps) \<in> set ld \<Longrightarrow> q \<in> set ps \<Longrightarrow> foreground img bg q"
    and "\<And>e k. e \<in> set eql \<Longrightarrow> k \<in> e \<Longrightarrow> k \<in> fst ` set ld"
    and "\<And>l ps. (l, ps) \<in> set ld \<Longrightarrow> p \<in> set ps \<Longrightarrow> ps = [p] \<and> (\<forall>e\<in>set eql. l \<notin> e)"
    and "p \<in> S \<Longrightarrow> \<exists>l ps. (l, ps) \<in> set ld \<and> p \<in> set ps"
  shows "iso_ok img bg p S (ld, eql)"
  unfolding iso_ok_def prod.case
proof (intro conjI)
  show "\<forall>(l, ps)\<in>set ld. \<forall>q\<in>set ps. foreground img bg q"
    using assms(1) by auto
  show "\<Union> (set eql) \<subseteq> fst ` set ld"
    using assms(2) by auto
  show "\<forall>(l, ps)\<in>set ld. p \<in> set ps \<longrightarrow> ps = [p] \<and> l \<notin> \<Union> (set eql)"
    using assms(3) by auto
  show "p \<in> S \<longrightarrow> (\<exists>(l, ps)\<in>set ld. p \<in> set ps)"
    using assms(4) by auto
qed

lemma iso_ok_fg:
  "iso_ok img bg p S (ld, eql) \<Longrightarrow> (l, ps) \<in> set ld \<Longrightarrow> q \<in> set ps \<Longrightarrow> foreground img bg q"
  unfolding iso_ok_def prod.case by (elim conjE) (drule (1) bspec, simp)

lemma iso_ok_eql:
  "iso_ok img bg p S (ld, eql) \<Longrightarrow> e \<in> set eql \<Longrightarrow> k \<in> e \<Longrightarrow> k \<in> fst ` set ld"
  unfolding iso_ok_def prod.case by (elim conjE) (erule subsetD, blast)

lemma iso_ok_alone:
  "iso_ok img bg p S (ld, eql) \<Longrightarrow> (l, ps) \<in> set ld \<Longrightarrow> p \<in> set ps
   \<Longrightarrow> ps = [p] \<and> (\<forall>e\<in>set eql. l \<notin> e)"
  unfolding iso_ok_def prod.case
  by (elim conjE) (drule (1) bspec, drule (1) bspec, simp)

lemma iso_ok_listed:
  "iso_ok img bg p S (ld, eql) \<Longrightarrow> p \<in> S \<Longrightarrow> \<exists>l ps. (l, ps) \<in> set ld \<and> p \<in> set ps"
  unfolding iso_ok_def prod.case by (elim conjE) (drule (1) mp, erule bexE, auto)

lemma iso_ok_step:
  assumes iso: "isolated img bg p" and ok: "dict_ok S ld" and inv: "iso_ok img bg p S (ld, eql)"
    and rng: "x < image_width img" "y < image_height img"
  shows "iso_ok img bg p (insert (int x, int y) S) (label_pixel img bg y x (ld, eql))"
proof (cases "getpixel img (x, y) = bg")
  case True
  have st: "label_pixel img bg y x (ld, eql) = (ld, eql)"
    using True by (rule label_pixel_background)
  have "p \<noteq> (int x, int y)"
    using isolated_foreground [OF iso] True by (auto simp: foreground_def)
  then show ?thesis unfolding st
    using iso_ok_fg [OF inv] iso_ok_eql [OF inv] iso_ok_alone [OF inv] iso_ok_listed [OF inv]
    by (intro iso_okI) auto
next
  case False
  let ?c = "(int x, int y)"
  let ?eq = "check_neighborhood ?c ld"
  have fgc: "foreground img bg ?c" using False rng by (simp add: foreground_def)
  note d = dict_ok_distinct [OF ok] and pos = dict_ok_keys [OF ok]
  from label_pixel_entries [OF False pos d, of eql] obtain l ps0 ld' eql' where
    r1: "label_pixel img bg y x (ld, eql) = (ld', eql')" and r2: "distinct (map fst ld')"
    and r3: "set ld' = insert (l, ps0 @ [?c]) (set ld - {(l, ps0)})" and r4: "1 \<le> l"
    and r5: "\<forall>ps'. (l, ps') \<in> set ld \<longrightarrow> ps' = ps0"
    and r6: "ps0 = [] \<and> l \<notin> fst ` set ld \<and> eql' = eql \<and> ?eq = {}
             \<or> (l, ps0) \<in> set ld \<and> l \<in> ?eq \<and> eql' = eql @ [?eq]"
    by (elim exE conjE)
  have r6': "ps0 = [] \<or> (l, ps0) \<in> set ld" using r6 by blast
  have eql': "eql' = eql \<or> eql' = eql @ [?eq]" using r6 by blast
  have old: "(k, ps) \<in> set ld \<and> k \<noteq> l" if "(k, ps) \<in> set ld'" "(k, ps) \<noteq> (l, ps0 @ [?c])" for k ps
  proof -
    have in_ld: "(k, ps) \<in> set ld" and ne: "(k, ps) \<noteq> (l, ps0)" using that r3 by auto
    have "k \<noteq> l" using in_ld ne r5 by auto
    with in_ld show ?thesis by simp
  qed
  have new_entry: "(l, ps0 @ [?c]) \<in> set ld'" using r3 by simp
  have keep: "(k, ps) \<in> set ld'" if "(k, ps) \<in> set ld" "(k, ps) \<noteq> (l, ps0)" for k ps
    using that r3 by simp
  have keys: "k \<in> fst ` set ld'" if "k \<in> fst ` set ld" for k
  proof -
    from that obtain ps where ps: "(k, ps) \<in> set ld" by auto
    show ?thesis
    proof (cases "(k, ps) = (l, ps0)")
      case True
      then show ?thesis using new_entry by force
    next
      case False
      from keep [OF ps False] show ?thesis by force
    qed
  qed
  have fgps0: "foreground img bg q" if "q \<in> set ps0" for q
    using r6' that iso_ok_fg [OF inv, of l ps0 q] by auto
  text \<open>No neighbour of the current pixel is listed under the label of \<open>p\<close>.\<close>
  have F: "k \<notin> ?eq" if "(k, ps) \<in> set ld" "p \<in> set ps" for k ps
  proof
    assume "k \<in> ?eq"
    then obtain ps' dd where n: "(k, ps') \<in> set ld" "dd \<in> set directions"
      "(fst ?c + fst dd, snd ?c + snd dd) \<in> set ps'"
      unfolding check_neighborhood_iff by blast
    have "ps' = ps" using d n(1) that(1) by (meson eq_key_imp_eq_value)
    moreover have "ps = [p]" using iso_ok_alone [OF inv that] by simp
    ultimately have "(fst ?c + fst dd, snd ?c + snd dd) = p" using n(3) by simp
    with isolated_no_neighbor [OF iso fgc n(2)] show False by simp
  qed
  text \<open>The current pixel is not \<open>p\<close> when one of its neighbours is listed.\<close>
  have G: "p \<noteq> ?c" if "k \<in> ?eq" for k
  proof
    assume pc: "p = ?c"
    from that obtain ps' dd where n: "(k, ps') \<in> set ld" "dd \<in> set directions"
      "(fst ?c + fst dd, snd ?c + snd dd) \<in> set ps'"
      unfolding check_neighborhood_iff by blast
    from iso_ok_fg [OF inv n(1) n(3)] isolated_neighbor [OF iso n(2)] pc show False by simp
  qed
  have notin_new: "p \<notin> set (ps0 @ [?c])" if "l \<in> ?eq"
  proof
    assume "p \<in> set (ps0 @ [?c])"
    then consider "p \<in> set ps0" | "p = ?c" by auto
    then show False
    proof cases
      case 1
      then have "(l, ps0) \<in> set ld" using r6' by auto
      from F [OF this 1] that show False by simp
    next
      case 2
      with G [OF that] show False by simp
    qed
  qed
  show ?thesis unfolding r1
  proof (rule iso_okI)
    show "foreground img bg q" if "(k, ps) \<in> set ld'" "q \<in> set ps" for k ps q
    proof (cases "(k, ps) = (l, ps0 @ [?c])")
      case True
      then have "q \<in> set ps0 \<or> q = ?c" using that(2) by auto
      then show ?thesis using fgps0 [of q] fgc by blast
    next
      case False
      from old [OF that(1) False] have "(k, ps) \<in> set ld" by simp
      from iso_ok_fg [OF inv this that(2)] show ?thesis .
    qed
    show "k \<in> fst ` set ld'" if "e \<in> set eql'" "k \<in> e" for e k
    proof -
      from that(1) eql' consider "e \<in> set eql" | "e = ?eq" by auto
      then have "k \<in> fst ` set ld"
      proof cases
        case 1
        from iso_ok_eql [OF inv 1 that(2)] show ?thesis .
      next
        case 2
        then show ?thesis using that(2) check_neighborhood_keys [of ?c ld] by auto
      qed
      then show ?thesis by (rule keys)
    qed
    show "ps = [p] \<and> (\<forall>e\<in>set eql'. k \<notin> e)" if "(k, ps) \<in> set ld'" "p \<in> set ps" for k ps
    proof (cases "(k, ps) = (l, ps0 @ [?c])")
      case True
      from r6 show ?thesis
      proof (elim disjE conjE)
        assume a: "ps0 = []" "l \<notin> fst ` set ld" "eql' = eql"
        have "ps = [p]" using True a(1) that(2) by simp
        moreover have "\<forall>e\<in>set eql'. k \<notin> e"
          using iso_ok_eql [OF inv] a(2,3) True by auto
        ultimately show ?thesis by simp
      next
        assume "l \<in> ?eq"
        from notin_new [OF this] True that(2) show ?thesis by simp
      qed
    next
      case False
      from old [OF that(1) False] have in_ld: "(k, ps) \<in> set ld" by simp
      from iso_ok_alone [OF inv in_ld that(2)] have al: "ps = [p]" "\<forall>e\<in>set eql. k \<notin> e"
        by simp_all
      have "k \<notin> ?eq" using in_ld that(2) by (rule F)
      with al eql' show ?thesis by auto
    qed
    show "\<exists>k ps. (k, ps) \<in> set ld' \<and> p \<in> set ps" if "p \<in> insert ?c S"
    proof (cases "p = ?c")
      case True
      then have "p \<in> set (ps0 @ [?c])" by simp
      with new_entry show ?thesis by blast
    next
      case False
      then have "p \<in> S" using that by simp
      from iso_ok_listed [OF inv this] obtain k ps where e: "(k, ps) \<in> set ld" "p \<in> set ps"
        by blast
      show ?thesis
      proof (cases "(k, ps) = (l, ps0)")
        case True
        then have "p \<in> set (ps0 @ [?c])" using e(2) by simp
        with new_entry show ?thesis by blast
      next
        case False
        from keep [OF e(1) False] e(2) show ?thesis by blast
      qed
    qed
  qed
qed

section \<open>The scan of Pass 1\<close>

lemma fold_upt_invariant:
  assumes "P 0 s" and "\<And>i s. i < n \<Longrightarrow> P i s \<Longrightarrow> P (Suc i) (f i s)"
  shows "P n (fold f [0..<n] s)"
  using assms(2)
proof (induction n)
  case 0
  show ?case using assms(1) by simp
next
  case (Suc n)
  have "P n (fold f [0..<n] s)" using Suc.prems by (intro Suc.IH) simp
  then have "P (Suc n) (f n (fold f [0..<n] s))" by (intro Suc.prems) simp
  then show ?case by simp
qed

lemma scanned_Suc: "x < w \<Longrightarrow> scanned w y (Suc x) = insert (int x, int y) (scanned w y x)"
  unfolding scanned_def by auto

lemma scanned_row: "scanned w y w = scanned w (Suc y) 0"
  unfolding scanned_def by auto

lemma scanned_notin: "(int x, int y) \<notin> scanned w y x"
  unfolding scanned_def by simp

lemma scanned_0: "scanned w 0 0 = {}"
  unfolding scanned_def by auto

lemma scanned_all:
  "p \<in> scanned w h 0 \<longleftrightarrow> 0 \<le> fst p \<and> fst p < int w \<and> 0 \<le> snd p \<and> snd p < int h"
  unfolding scanned_def by auto

lemma row_dict_ok:
  assumes "dict_ok (scanned w y 0) (fst st)"
  shows "dict_ok (scanned w (Suc y) 0) (fst (fold (\<lambda>x. label_pixel img bg y x) [0..<w] st))"
  unfolding scanned_row [symmetric]
proof (rule fold_upt_invariant [where P = "\<lambda>x (st :: labelled_dict \<times> int set list). dict_ok (scanned w y x) (fst st)"])
  show "dict_ok (scanned w y 0) (fst st)" by fact
next
  fix x and st :: "labelled_dict \<times> int set list"
  assume x: "x < w" and ok: "dict_ok (scanned w y x) (fst st)"
  obtain ld eql where st: "st = (ld, eql)" by (cases st)
  show "dict_ok (scanned w y (Suc x)) (fst (label_pixel img bg y x st))"
    unfolding st scanned_Suc [OF x]
    using ok scanned_notin unfolding st fst_conv by (rule dict_ok_step)
qed

lemma first_pass_dict_ok:
  "dict_ok (scanned (image_width img) (image_height img) 0) (fst (first_pass img bg))"
  unfolding first_pass_def
proof (rule fold_upt_invariant [where P = "\<lambda>y (st :: labelled_dict \<times> int set list). dict_ok (scanned (image_width img) y 0) (fst st)"])
  show "dict_ok (scanned (image_width img) 0 0) (fst ([], []))"
    by (simp add: dict_ok_def)
next
  fix y and st :: "labelled_dict \<times> int set list"
  assume "dict_ok (scanned (image_width img) y 0) (fst st)"
  then show "dict_ok (scanned (image_width img) (Suc y) 0)
               (fst (fold (\<lambda>x. label_pixel img bg y x) [0..<image_width img] st))"
    by (rule row_dict_ok)
qed

lemma row_iso_ok:
  assumes iso: "isolated img bg p" and y: "y < image_height img"
    and "dict_ok (scanned (image_width img) y 0) (fst st)
         \<and> iso_ok img bg p (scanned (image_width img) y 0) st"
  shows "dict_ok (scanned (image_width img) (Suc y) 0)
           (fst (fold (\<lambda>x. label_pixel img bg y x) [0..<image_width img] st))
         \<and> iso_ok img bg p (scanned (image_width img) (Suc y) 0)
             (fold (\<lambda>x. label_pixel img bg y x) [0..<image_width img] st)"
  unfolding scanned_row [symmetric]
proof (rule fold_upt_invariant
    [where P = "\<lambda>x (st :: labelled_dict \<times> int set list). dict_ok (scanned (image_width img) y x) (fst st)
                     \<and> iso_ok img bg p (scanned (image_width img) y x) st"])
  show "dict_ok (scanned (image_width img) y 0) (fst st)
        \<and> iso_ok img bg p (scanned (image_width img) y 0) st" by fact
next
  fix x and st :: "labelled_dict \<times> int set list"
  assume x: "x < image_width img"
    and inv: "dict_ok (scanned (image_width img) y x) (fst st)
              \<and> iso_ok img bg p (scanned (image_width img) y x) st"
  obtain ld eql where st: "st = (ld, eql)" by (cases st)
  from inv have ok: "dict_ok (scanned (image_width img) y x) ld"
    and io: "iso_ok img bg p (scanned (image_width img) y x) (ld, eql)"
    unfolding st by simp_all
  have "dict_ok (scanned (image_width img) y (Suc x)) (fst (label_pixel img bg y x (ld, eql)))"
    unfolding scanned_Suc [OF x] using ok scanned_notin by (rule dict_ok_step)
  moreover have "iso_ok img bg p (scanned (image_width img) y (Suc x))
                   (label_pixel img bg y x (ld, eql))"
    unfolding scanned_Suc [OF x] using iso ok io x y by (rule iso_ok_step)
  ultimately show "dict_ok (scanned (image_width img) y (Suc x)) (fst (label_pixel img bg y x st))
        \<and> iso_ok img bg p (scanned (image_width img) y (Suc x)) (label_pixel img bg y x st)"
    unfolding st by simp
qed

lemma first_pass_iso_ok:
  assumes iso: "isolated img bg p"
  shows "iso_ok img bg p (scanned (image_width img) (image_height img) 0) (first_pass img bg)"
proof -
  have "dict_ok (scanned (image_width img) (image_height img) 0) (fst (first_pass img bg))
        \<and> iso_ok img bg p (scanned (image_width img) (image_height img) 0) (first_pass img bg)"
    unfolding first_pass_def
  proof (rule fold_upt_invariant
      [where P = "\<lambda>y (st :: labelled_dict \<times> int set list). dict_ok (scanned (image_width img) y 0) (fst st)
                       \<and> iso_ok img bg p (scanned (image_width img) y 0) st"])
    show "dict_ok (scanned (image_width img) 0 0) (fst ([], []))
          \<and> iso_ok img bg p (scanned (image_width img) 0 0) ([], [])"
      by (simp add: dict_ok_def iso_ok_def scanned_0)
  next
    fix y and st :: "labelled_dict \<times> int set list"
    assume "y < image_height img"
      and "dict_ok (scanned (image_width img) y 0) (fst st)
           \<and> iso_ok img bg p (scanned (image_width img) y 0) st"
    with iso show "dict_ok (scanned (image_width img) (Suc y) 0)
             (fst (fold (\<lambda>x. label_pixel img bg y x) [0..<image_width img] st))
           \<and> iso_ok img bg p (scanned (image_width img) (Suc y) 0)
               (fold (\<lambda>x. label_pixel img bg y x) [0..<image_width img] st)"
      by (rule row_iso_ok)
  qed
  then show ?thesis by simp
qed

text \<open>After Pass 1 the label of an isolated pixel is a key of the dict and in no equivalence set.\<close>

lemma first_pass_isolated_label:
  assumes iso: "isolated img bg p" and fp: "first_pass img bg = (ld, eql)"
  shows "\<exists>l\<in>fst ` set ld. \<forall>e\<in>set eql. l \<notin> e"
proof -
  have inv: "iso_ok img bg p (scanned (image_width img) (image_height img) 0) (ld, eql)"
    using first_pass_iso_ok [OF iso] unfolding fp .
  have "p \<in> scanned (image_width img) (image_height img) 0"
    using isolated_foreground [OF iso] unfolding scanned_all foreground_def by simp
  from iso_ok_listed [OF inv this] obtain l ps where e: "(l, ps) \<in> set ld" "p \<in> set ps"
    by blast
  from iso_ok_alone [OF inv e] have "\<forall>e\<in>set eql. l \<notin> e" by simp
  moreover have "l \<in> fst ` set ld" using e(1) by force
  ultimately show ?thesis by blast
qed

section \<open>Pass 2 on a label without equivalence record\<close>

lemma fold_invariant:
  assumes "P s" and "\<And>x s. x \<in> set xs \<Longrightarrow> P s \<Longrightarrow> P (f x s)"
  shows "P (fold f xs s)"
  using assms by (induction xs arbitrary: s) simp_all

text \<open>
  The first loop of \<open>update_label\<close> only unites sets of the list with each other, and
  only labels found in one of them become keys of \<open>equivalence_dict\<close>.
\<close>

lemma merge_record_within:
  assumes j: "j < length store" and sets: "\<forall>e\<in>set store. e \<subseteq> U"
    and keys: "fst ` set ed \<subseteq> U"
  shows "length (snd (merge_record lab j (ed, store))) = length store
       \<and> (\<forall>e\<in>set (snd (merge_record lab j (ed, store))). e \<subseteq> U)
       \<and> fst ` set (fst (merge_record lab j (ed, store))) \<subseteq> U"
proof (cases "lab \<in> store ! j")
  case False
  then show ?thesis using sets keys by (simp add: merge_record_def)
next
  case True
  have sj: "store ! j \<subseteq> U" using j sets by simp
  show ?thesis
  proof (cases "map_of ed lab")
    case None
    have "merge_record lab j (ed, store) = (AList.update lab j ed, store)"
      using True None by (simp add: merge_record_def)
    moreover have "fst ` set (AList.update lab j ed) \<subseteq> U"
      using keys True sj by (auto simp: dom_update)
    ultimately show ?thesis using sets by simp
  next
    case (Some i)
    have m: "merge_record lab j (ed, store) = (ed, store[i := store ! i \<union> store ! j])"
      using True Some by (simp add: merge_record_def)
    have "e \<subseteq> U" if "e \<in> set (store[i := store ! i \<union> store ! j])" for e
    proof (cases "i < length store")
      case True
      then have "store ! i \<subseteq> U" using sets by simp
      moreover have "e \<in> insert (store ! i \<union> store ! j) (set store)"
        using that set_update_subset_insert by fast
      ultimately show ?thesis using sj sets by auto
    next
      case False
      then have "length store \<le> i" by simp
      then have "store[i := store ! i \<union> store ! j] = store" by (rule list_update_beyond)
      then show ?thesis using that sets by simp
    qed
    then show ?thesis unfolding m using keys by simp
  qed
qed

lemma collect_equivalence_keys:
  "fst ` set (fst (collect_equivalence ld eql)) \<subseteq> \<Union>(set eql)"
proof -
  let ?U = "\<Union>(set eql)"
  let ?P = "\<lambda>st :: (int \<times> nat) list \<times> int set list.
              length (snd st) = length eql \<and> (\<forall>e\<in>set (snd st). e \<subseteq> ?U) \<and> fst ` set (fst st) \<subseteq> ?U"
  have "?P (collect_equivalence ld eql)"
    unfolding collect_equivalence_def
  proof (rule fold_invariant [where P = ?P])
    show "?P ([], eql)" by auto
  next
    fix lab and st :: "(int \<times> nat) list \<times> int set list"
    assume st: "?P st"
    show "?P (fold (merge_record lab) [0..<length eql] st)"
    proof (rule fold_invariant [where P = ?P])
      show "?P st" by fact
    next
      fix j and st :: "(int \<times> nat) list \<times> int set list"
      assume "j \<in> set [0..<length eql]" and P: "?P st"
      obtain ed store where s: "st = (ed, store)" by (cases st)
      have "j < length store" using \<open>j \<in> set [0..<length eql]\<close> P unfolding s by simp
      from merge_record_within [OF this, of ?U ed lab] P
      show "?P (merge_record lab j st)" unfolding s by simp
    qed
  qed
  then show ?thesis by simp
qed

lemma reduce_equivalence_keys: "map fst (reduce_equivalence (ed, store)) = map fst ed"
  by (simp add: reduce_equivalence_def split_beta)

lemma relabel_error: "relabel ed lab ld = Inl e \<Longrightarrow> \<exists>k. e = KeyError k"
  by (auto simp: relabel_def split: option.splits if_splits)

lemma relabel_missing: "map_of ed lab = None \<Longrightarrow> relabel ed lab ld = Inl (KeyError lab)"
  by (simp add: relabel_def)

lemma relabel_all_error: "relabel_all ed labs ld = Inl e \<Longrightarrow> \<exists>k. e = KeyError k"
proof (induction labs arbitrary: ld)
  case Nil
  then show ?case by simp
next
  case (Cons lab labs)
  then show ?case
    by (cases "relabel ed lab ld") (auto dest: relabel_error)
qed

lemma relabel_all_missing:
  assumes "map_of ed l = None" "l \<in> set labs"
  shows "\<exists>k. relabel_all ed labs ld = Inl (KeyError k)"
  using assms(2)
proof (induction labs arbitrary: ld)
  case Nil
  then show ?case by simp
next
  case (Cons lab labs)
  show ?case
  proof (cases "relabel ed lab ld")
    case (Inl e)
    then show ?thesis using relabel_error [OF Inl] by auto
  next
    case (Inr ld')
    have "lab \<noteq> l" using Inr relabel_missing [OF assms(1), of ld] by auto
    then have "l \<in> set labs" using Cons.prems by simp
    from Cons.IH [OF this, of ld'] show ?thesis using Inr by simp
  qed
qed

lemma update_label_KeyError:
  assumes "l \<in> fst ` set ld" "\<forall>e\<in>set eql. l \<notin> e"
  shows "\<exists>k. update_label ld eql = Inl (KeyError k)"
proof -
  obtain ed store where c: "collect_equivalence ld eql = (ed, store)"
    by (cases "collect_equivalence ld eql")
  have "l \<notin> fst ` set ed"
    using collect_equivalence_keys [of ld eql] assms(2) unfolding c by auto
  then have "l \<notin> fst ` set (reduce_equivalence (ed, store))"
    using reduce_equivalence_keys [of ed store] by (metis set_map)
  then have "map_of (reduce_equivalence (ed, store)) l = None"
    by (simp add: map_of_eq_None_iff)
  moreover have "l \<in> set (map fst ld)" using assms(1) by simp
  ultimately show ?thesis
    unfolding update_label_def c by (rule relabel_all_missing)
qed

text \<open>
  C3. When the foreground has a connected component of exactly one pixel (an isolated
  foreground pixel), \<open>find_sprites\<close> raises \<open>KeyError\<close> in Pass 2 and returns no
  sprites: the label of that pixel is in no equivalence set, so it is not a key of
  \<open>equivalence_dict\<close>, and every error of the third loop is a \<open>KeyError\<close>.
\<close>

theorem find_sprites_isolated_pixel_KeyError:
  assumes "isolated img bg p"
  shows "\<exists>k. find_sprites img (Some bg) = Inl (KeyError k)"
proof -
  obtain ld eql where fp: "first_pass img bg = (ld, eql)" by (cases "first_pass img bg")
  from first_pass_isolated_label [OF assms fp] obtain l where
    "l \<in> fst ` set ld" "\<forall>e\<in>set eql. l \<notin> e" by blast
  from update_label_KeyError [OF this] obtain k where "update_label ld eql = Inl (KeyError k)"
    by blast
  then have "find_sprites img (Some bg) = Inl (KeyError k)"
    by (simp add: find_sprites_def create_labelled_dict_def fp)
  then show ?thesis by blast
qed

theorem find_sprites_isolated_pixel_KeyError_witness:
  "isolated gap_image 0 (2, 2) \<and> (\<exists>k. find_sprites gap_image (Some 0) = Inl (KeyError k))"
proof -
  have iso: "isolated gap_image 0 (2, 2)" by code_simp
  from find_sprites_isolated_pixel_KeyError [OF iso] iso show ?thesis by simp
qed

section \<open>The label map\<close>

text \<open>
  The cell of the label map at a coordinate: the label of the last entry that lists
  the coordinate, or the start value when no entry does.
\<close>

lemma cell_unlisted:
  "\<forall>(l, ps)\<in>set ld. c \<notin> set ps \<Longrightarrow>
   fold (\<lambda>(lab, list_pixels) pixel_label. if c \<in> set list_pixels then lab else pixel_label) ld a = a"
  by (induction ld arbitrary: a) auto

lemma cell_listed:
  "\<exists>(l, ps)\<in>set ld. c \<in> set ps \<Longrightarrow>
   \<exists>ps. (fold (\<lambda>(lab, list_pixels) pixel_label. if c \<in> set list_pixels then lab else pixel_label)
              ld a, ps) \<in> set ld \<and> c \<in> set ps"
proof (induction ld arbitrary: a)
  case Nil
  then show ?case by simp
next
  case (Cons e ld)
  let ?g = "\<lambda>(lab, list_pixels) pixel_label. if c \<in> set list_pixels then lab else pixel_label"
  show ?case
  proof (cases "\<exists>(l, ps)\<in>set ld. c \<in> set ps")
    case True
    from Cons.IH [OF True, of "?g e a"] show ?thesis by auto
  next
    case False
    then have no: "\<forall>(l, ps)\<in>set ld. c \<notin> set ps" by auto
    have here: "c \<in> set (snd e)" using Cons.prems False by auto
    have "fold ?g (e # ld) a = ?g e a" using cell_unlisted [OF no] by simp
    also have "\<dots> = fst e" using here by (simp add: split_beta)
    finally show ?thesis using here by (intro exI [of _ "snd e"]) simp
  qed
qed

lemma cell_dict_ok:
  assumes ok: "dict_ok S ld"
  shows "fold (\<lambda>(lab, list_pixels) pixel_label. if c \<in> set list_pixels then lab else pixel_label)
              ld 0 = l
         \<longleftrightarrow> (l = 0 \<and> (\<forall>(k, ps)\<in>set ld. c \<notin> set ps)) \<or> (\<exists>ps. (l, ps) \<in> set ld \<and> c \<in> set ps)"
    (is "?cell = l \<longleftrightarrow> ?rhs")
proof (cases "\<exists>(k, ps)\<in>set ld. c \<in> set ps")
  case False
  then have no: "\<forall>(k, ps)\<in>set ld. c \<notin> set ps" by auto
  have "?cell = 0" using no by (rule cell_unlisted)
  moreover have "\<not> (\<exists>ps. (l, ps) \<in> set ld \<and> c \<in> set ps)" using no by auto
  ultimately show ?thesis using no by auto
next
  case True
  from cell_listed [OF True, of 0] obtain ps where e: "(?cell, ps) \<in> set ld" "c \<in> set ps"
    by blast
  have pos: "1 \<le> ?cell" using dict_ok_entry [OF ok e(1)] by simp
  have same: "k = ?cell" if "(k, qs) \<in> set ld" "c \<in> set qs" for k qs
  proof (rule ccontr)
    assume "k \<noteq> ?cell"
    from dict_ok_disjoint [OF ok that(1) e(1) this] that(2) e(2) show False by auto
  qed
  show ?thesis
  proof
    assume "?cell = l"
    then show ?rhs using e by blast
  next
    assume ?rhs
    then show "?cell = l"
    proof (elim disjE conjE exE)
      assume "\<forall>(k, ps)\<in>set ld. c \<notin> set ps"
      with True show ?thesis by blast
    next
      fix qs assume "(l, qs) \<in> set ld" "c \<in> set qs"
      from same [OF this] show ?thesis by simp
    qed
  qed
qed

lemma create_label_map_nth:
  assumes "x < image_width img" "y < image_height img"
  shows "create_label_map ld img ! y ! x =
           fold (\<lambda>(lab, list_pixels) pixel_label.
                   if (int x, int y) \<in> set list_pixels then lab else pixel_label) ld 0"
  using assms by (simp add: create_label_map_def)

lemma create_label_map_shape:
  "length (create_label_map ld img) = image_height img
   \<and> (\<forall>y<image_height img. length (create_label_map ld img ! y) = image_width img)"
  by (simp add: create_label_map_def)

text \<open>The third loop of \<open>update_label\<close> keeps the dict well formed.\<close>

lemma set_delete: "set (AList.delete k al) = {e \<in> set al. fst e \<noteq> k}"
  by (auto simp: AList.delete_eq)

lemma relabel_dict_ok:
  assumes ok: "dict_ok S ld" and r: "relabel ed lab ld = Inr ld'"
  shows "dict_ok S ld'"
proof (cases "\<exists>t. map_of ed lab = Some t \<and> t \<noteq> lab")
  case False
  then have "ld' = ld" using r by (auto simp: relabel_def split: option.splits if_splits)
  then show ?thesis using ok by simp
next
  case True
  then obtain t where t: "map_of ed lab = Some t" "t \<noteq> lab" by blast
  from r t obtain target moved where
    m: "map_of ld t = Some target" "map_of ld lab = Some moved"
    and ld': "ld' = AList.delete lab (AList.update t (target @ moved) ld)"
    by (auto simp: relabel_def split: option.splits)
  note d = dict_ok_distinct [OF ok]
  have et: "(t, target) \<in> set ld" and el: "(lab, moved) \<in> set ld"
    using m by (auto dest: map_of_SomeD)
  have su: "set (AList.update t (target @ moved) ld) = insert (t, target @ moved) (set ld - {(t, target)})"
    using d et by (rule set_update_distinct)
  have s: "set ld' = insert (t, target @ moved) {e \<in> set ld. fst e \<noteq> t \<and> fst e \<noteq> lab}"
  proof -
    have uniq: "qs = target" if "(t, qs) \<in> set ld" for qs
      using eq_key_imp_eq_value [OF d that et] .
    have eq: "set ld - {(t, target)} = {e \<in> set ld. fst e \<noteq> t}"
    proof (intro set_eqI iffI)
      fix e assume "e \<in> set ld - {(t, target)}"
      then have "e \<in> set ld" "e \<noteq> (t, target)" by simp_all
      moreover have "fst e \<noteq> t"
      proof
        assume "fst e = t"
        then have "(t, snd e) \<in> set ld" using \<open>e \<in> set ld\<close> by (metis prod.collapse)
        from uniq [OF this] \<open>fst e = t\<close> \<open>e \<noteq> (t, target)\<close> show False
          by (metis prod.collapse)
      qed
      ultimately show "e \<in> {e \<in> set ld. fst e \<noteq> t}" by simp
    next
      fix e assume "e \<in> {e \<in> set ld. fst e \<noteq> t}"
      then show "e \<in> set ld - {(t, target)}" by auto
    qed
    have "set ld' = {e \<in> insert (t, target @ moved) {e \<in> set ld. fst e \<noteq> t}. fst e \<noteq> lab}"
      unfolding ld' set_delete su eq ..
    also have "\<dots> = insert (t, target @ moved) {e \<in> set ld. fst e \<noteq> t \<and> fst e \<noteq> lab}"
      using t(2) by auto
    finally show ?thesis .
  qed
  have old: "(k, ps) \<in> set ld \<and> k \<noteq> t \<and> k \<noteq> lab"
    if "(k, ps) \<in> set ld'" "(k, ps) \<noteq> (t, target @ moved)" for k ps
    using that unfolding s by auto
  have c1: "set (target @ moved) \<inter> set qs = {}" if "(j, qs) \<in> set ld" "j \<noteq> t" "j \<noteq> lab" for j qs
    using dict_ok_disjoint [OF ok et that(1)] dict_ok_disjoint [OF ok el that(1)] that(2,3)
    by auto
  show ?thesis
  proof (rule dict_okI)
    show "distinct (map fst ld')"
      unfolding ld' by (intro distinct_delete distinct_update d)
    show "1 \<le> k \<and> set ps \<subseteq> S" if "(k, ps) \<in> set ld'" for k ps
    proof (cases "(k, ps) = (t, target @ moved)")
      case True
      then show ?thesis using dict_ok_entry [OF ok et] dict_ok_entry [OF ok el] by auto
    next
      case False
      from old [OF that False] have "(k, ps) \<in> set ld" by simp
      from dict_ok_entry [OF ok this] show ?thesis .
    qed
    show "set ps \<inter> set ps' = {}" if "(k, ps) \<in> set ld'" "(k', ps') \<in> set ld'" "k \<noteq> k'"
      for k ps k' ps'
    proof -
      consider "(k, ps) = (t, target @ moved)" | "(k', ps') = (t, target @ moved)"
        | "(k, ps) \<noteq> (t, target @ moved)" "(k', ps') \<noteq> (t, target @ moved)" by blast
      then show ?thesis
      proof cases
        case 1
        then have "(k', ps') \<noteq> (t, target @ moved)" using that(3) by auto
        from old [OF that(2) this] have "(k', ps') \<in> set ld" "k' \<noteq> t" "k' \<noteq> lab" by simp_all
        from c1 [OF this] 1 show ?thesis by simp
      next
        case 2
        then have "(k, ps) \<noteq> (t, target @ moved)" using that(3) by auto
        from old [OF that(1) this] have "(k, ps) \<in> set ld" "k \<noteq> t" "k \<noteq> lab" by simp_all
        from c1 [OF this] 2 show ?thesis by (simp add: Int_commute)
      next
        case 3
        from old [OF that(1) 3(1)] old [OF that(2) 3(2)]
        have "(k, ps) \<in> set ld" "(k', ps') \<in> set ld" by simp_all
        then show ?thesis using that(3) by (rule dict_ok_disjoint [OF ok])
      qed
    qed
  qed
qed

lemma relabel_all_dict_ok:
  "dict_ok S ld \<Longrightarrow> relabel_all ed labs ld = Inr ld' \<Longrightarrow> dict_ok S ld'"
proof (induction labs arbitrary: ld)
  case Nil
  then show ?case by simp
next
  case (Cons lab labs)
  from Cons.prems(2) obtain ld1 where 1: "relabel ed lab ld = Inr ld1"
    and 2: "relabel_all ed labs ld1 = Inr ld'"
    by (cases "relabel ed lab ld") auto
  from relabel_dict_ok [OF Cons.prems(1) 1] 2 show ?case by (rule Cons.IH)
qed

lemma create_labelled_dict_ok:
  assumes "create_labelled_dict img bg = Inr ld"
  shows "dict_ok (scanned (image_width img) (image_height img) 0) ld"
proof -
  obtain ld0 eql where fp: "first_pass img bg = (ld0, eql)" by (cases "first_pass img bg")
  have "dict_ok (scanned (image_width img) (image_height img) 0) ld0"
    using first_pass_dict_ok [of img bg] unfolding fp by simp
  moreover have "relabel_all (reduce_equivalence (collect_equivalence ld0 eql)) (map fst ld0) ld0
                   = Inr ld"
    using assms unfolding create_labelled_dict_def fp update_label_def by simp
  ultimately show ?thesis by (rule relabel_all_dict_ok)
qed

lemma build_sprites_keys:
  "build_sprites ld acc = Inr sprites \<Longrightarrow> fst ` set sprites = fst ` set acc \<union> fst ` set ld"
proof (induction ld arbitrary: acc)
  case Nil
  then show ?case by simp
next
  case (Cons e ld)
  obtain lab ps where e: "e = (lab, ps)" by (cases e)
  from Cons.prems obtain s where "bounding_sprite lab ps = Inr s"
    and "build_sprites ld (AList.update lab s acc) = Inr sprites"
    unfolding e by (cases "bounding_sprite lab ps") auto
  from Cons.IH [OF this(2)] show ?case unfolding e by (auto simp: dom_update)
qed

text \<open>
  When \<open>find_sprites\<close> returns, the label map agrees with the dict that
  \<open>update_label\<close> returned: it has the dimensions of the image, each of its cells holds
  0 or one key of that dict, the coordinates whose cell holds a key are exactly the
  pixels listed under it, and no pixel is listed under two keys. Whether the keys are
  canonical and the lists are components is up to \<open>update_label\<close>.
\<close>

lemma label_map_matches_dict:
  assumes "find_sprites img background_color = Inr (sprites, label_map)"
  shows "\<exists>bg ld.
           (case background_color of Some c \<Rightarrow> bg = c
            | None \<Rightarrow> find_most_common_color (image_object img) = Inr bg)
         \<and> create_labelled_dict img bg = Inr ld
         \<and> fst ` set sprites = fst ` set ld
         \<and> length label_map = image_height img
         \<and> (\<forall>y<image_height img. length (label_map ! y) = image_width img
              \<and> (\<forall>x<image_width img.
                    label_map ! y ! x = 0 \<or> label_map ! y ! x \<in> fst ` set sprites))
         \<and> (\<forall>(l, ps)\<in>set ld.
               set ps = {(int x, int y) | x y.
                           x < image_width img \<and> y < image_height img \<and> label_map ! y ! x = l})
         \<and> (\<forall>(l, ps)\<in>set ld. \<forall>(l', ps')\<in>set ld. l \<noteq> l' \<longrightarrow> set ps \<inter> set ps' = {})"
proof -
  let ?w = "image_width img" and ?h = "image_height img"
  from assms obtain bg where
    bg: "case background_color of Some c \<Rightarrow> bg = c
         | None \<Rightarrow> find_most_common_color (image_object img) = Inr bg"
    and rest: "(case create_labelled_dict img bg of
                  Inl e \<Rightarrow> Inl e
                | Inr labelled_dict \<Rightarrow>
                    (case build_sprites labelled_dict [] of
                       Inl e \<Rightarrow> Inl e
                     | Inr sprites \<Rightarrow> Inr (sprites, create_label_map labelled_dict img)))
               = Inr (sprites, label_map)"
    unfolding find_sprites_def by (auto split: option.splits sum.splits)
  from rest obtain ld where ld: "create_labelled_dict img bg = Inr ld"
    and bs: "build_sprites ld [] = Inr sprites" and lm: "label_map = create_label_map ld img"
    by (auto split: sum.splits)
  have ok: "dict_ok (scanned ?w ?h 0) ld" using ld by (rule create_labelled_dict_ok)
  have keys: "fst ` set sprites = fst ` set ld" using build_sprites_keys [OF bs] by simp
  have cell: "label_map ! y ! x = l \<longleftrightarrow>
                (l = 0 \<and> (\<forall>(k, ps)\<in>set ld. (int x, int y) \<notin> set ps))
                \<or> (\<exists>ps. (l, ps) \<in> set ld \<and> (int x, int y) \<in> set ps)"
    if "x < ?w" "y < ?h" for x y l
    unfolding lm create_label_map_nth [OF that] by (rule cell_dict_ok [OF ok])
  have shape: "length label_map = ?h" "\<And>y. y < ?h \<Longrightarrow> length (label_map ! y) = ?w"
    using create_label_map_shape [of ld img] unfolding lm by simp_all
  have cells: "label_map ! y ! x = 0 \<or> label_map ! y ! x \<in> fst ` set sprites"
    if "x < ?w" "y < ?h" for x y
  proof -
    from cell [OF that, of "label_map ! y ! x"]
    have "label_map ! y ! x = 0 \<or> (\<exists>ps. (label_map ! y ! x, ps) \<in> set ld)" by auto
    then show ?thesis unfolding keys by force
  qed
  have comp: "set ps = {(int x, int y) | x y. x < ?w \<and> y < ?h \<and> label_map ! y ! x = l}"
    if e: "(l, ps) \<in> set ld" for l ps
  proof (intro set_eqI iffI)
    fix q assume q: "q \<in> set ps"
    then have "q \<in> scanned ?w ?h 0" using dict_ok_entry [OF ok e] by auto
    then have r: "0 \<le> fst q" "fst q < int ?w" "0 \<le> snd q" "snd q < int ?h"
      unfolding scanned_all by simp_all
    define x y where "x = nat (fst q)" and "y = nat (snd q)"
    have xy: "x < ?w" "y < ?h" and qq: "q = (int x, int y)"
      using r unfolding x_def y_def by (simp_all add: prod_eq_iff)
    have "label_map ! y ! x = l" unfolding cell [OF xy] using e q qq by blast
    then show "q \<in> {(int x, int y) | x y. x < ?w \<and> y < ?h \<and> label_map ! y ! x = l}"
      using xy qq by blast
  next
    fix q assume "q \<in> {(int x, int y) | x y. x < ?w \<and> y < ?h \<and> label_map ! y ! x = l}"
    then obtain x y where xy: "x < ?w" "y < ?h" and qq: "q = (int x, int y)"
      and c: "label_map ! y ! x = l" by blast
    have "l \<noteq> 0" using dict_ok_entry [OF ok e] by simp
    then obtain ps' where e': "(l, ps') \<in> set ld" "(int x, int y) \<in> set ps'"
      using c unfolding cell [OF xy] by blast
    have "ps' = ps" using eq_key_imp_eq_value [OF dict_ok_distinct [OF ok] e'(1) e] .
    then show "q \<in> set ps" using e'(2) qq by simp
  qed
  have dis: "set ps \<inter> set ps' = {}" if "(l, ps) \<in> set ld" "(l', ps') \<in> set ld" "l \<noteq> l'"
    for l ps l' ps'
    using ok that by (rule dict_ok_disjoint)
  have A: "\<forall>y<?h. length (label_map ! y) = ?w
              \<and> (\<forall>x<?w. label_map ! y ! x = 0 \<or> label_map ! y ! x \<in> fst ` set sprites)"
    using shape(2) cells by blast
  have B: "\<forall>(l, ps)\<in>set ld.
               set ps = {(int x, int y) | x y. x < ?w \<and> y < ?h \<and> label_map ! y ! x = l}"
    using comp by blast
  have C: "\<forall>(l, ps)\<in>set ld. \<forall>(l', ps')\<in>set ld. l \<noteq> l' \<longrightarrow> set ps \<inter> set ps' = {}"
    using dis by blast
  from bg ld keys shape(1) A B C show ?thesis by blast
qed

text \<open>
  C5. On the W-shaped image, whose foreground is one chain of 8-adjacent pixels, the
  label map of \<open>find_sprites\<close> holds two labels: the 8-adjacent foreground pixels
  (2,1) and (3,2) have the cells 1 and 2. Label 2 is not canonical, and the cells that
  hold label 1 are not the pixels of the component.
\<close>

theorem label_map_w_image_two_labels:
  "chain8 [(0, 0), (0, 1), (1, 2), (2, 1), (3, 2), (4, 1), (4, 0)]
   \<and> set [(0, 0), (0, 1), (1, 2), (2, 1), (3, 2), (4, 1), (4, 0)] = set (foreground_pixels w_image 0)
   \<and> map_sum id snd (find_sprites w_image (Some 0))
       = Inr [[1, 0, 0, 0, 2], [1, 0, 1, 0, 2], [0, 1, 0, 2, 0]]
   \<and> adjacent8 (2, 1) (3, 2)
   \<and> [[1, 0, 0, 0, 2], [1, 0, 1, 0, 2], [0, 1, 0, 2, (0::int)]] ! 1 ! 2 = 1
   \<and> [[1, 0, 0, 0, 2], [1, 0, 1, 0, 2], [0, 1, 0, 2, (0::int)]] ! 2 ! 3 = 2"
  by code_simp

end
